theory Spec2Isabelle
  imports Main "HOL-Library.Word"
begin

unbundle bit_operations_syntax

section \<open>The program: \<^verbatim>\<open>sha256.py\<close>\<close>

text \<open>
  The script works on Python's unbounded integers and masks every sum with
  \<^verbatim>\<open>% 2 ** 32\<close>; the model keeps them as \<^typ>\<open>int\<close> with the masks written
  out. A \<^verbatim>\<open>bytes\<close> object is a list of 8-bit words. The module-level list
  \<^verbatim>\<open>H\<close> is the only mutable global; it is passed in and handed back.
\<close>

type_synonym byte = "8 word"
type_synonym bytes = "byte list"
type_synonym hash_state = "int list"

datatype error =
    BadChunkSize nat      \<comment> \<open>\<^verbatim>\<open>assert len(chunck) <= 64\<close> in \<^verbatim>\<open>perform_padding\<close>\<close>
  | BadInputSize int      \<comment> \<open>\<^verbatim>\<open>assert input_size < 2 ** 64\<close> in \<^verbatim>\<open>perform_padding\<close>\<close>
  | BadBlockSize nat      \<comment> \<open>\<^verbatim>\<open>assert len(block) == BLOCK_SIZE_BYTE\<close> in \<^verbatim>\<open>compute_hash\<close>\<close>
  | OverflowError         \<comment> \<open>raised by \<^verbatim>\<open>int.to_bytes\<close>\<close>
  | ValueError            \<comment> \<open>raised by unpacking \<^verbatim>\<open>H[0:]\<close> into eight names\<close>
  | FileTooBig            \<comment> \<open>\<^verbatim>\<open>main\<close> prints "is too big" and calls \<^verbatim>\<open>exit(0)\<close>\<close>

definition BLOCK_SIZE_BYTE :: nat where
  "BLOCK_SIZE_BYTE = 64"

subsection \<open>Primitives\<close>

text \<open>
  \<^verbatim>\<open>return (x >> n) | ((x << (32 - n)) % 2 ** 32)\<close>. The shift count is a literal
  between 2 and 25 at every call site, hence a \<^typ>\<open>nat\<close>.
\<close>

definition rotr :: "int \<Rightarrow> nat \<Rightarrow> int" where
  "rotr x n = drop_bit n x OR (push_bit (32 - n) x mod 2 ^ 32)"

definition ch :: "int \<Rightarrow> int \<Rightarrow> int \<Rightarrow> int" where
  "ch x y z = (x AND y) XOR (NOT x AND z)"

definition maj :: "int \<Rightarrow> int \<Rightarrow> int \<Rightarrow> int" where
  "maj x y z = (x AND y) XOR (x AND z) XOR (y AND z)"

definition bsig0 :: "int \<Rightarrow> int" where
  "bsig0 x = rotr x 2 XOR rotr x 13 XOR rotr x 22"

definition bsig1 :: "int \<Rightarrow> int" where
  "bsig1 x = rotr x 6 XOR rotr x 11 XOR rotr x 25"

definition ssig0 :: "int \<Rightarrow> int" where
  "ssig0 x = rotr x 7 XOR rotr x 18 XOR drop_bit 3 x"

definition ssig1 :: "int \<Rightarrow> int" where
  "ssig1 x = rotr x 17 XOR rotr x 19 XOR drop_bit 10 x"

subsection \<open>Constants\<close>

text \<open>The list \<^verbatim>\<open>K\<close>, written line by line as in the script: eight lines of eight words.\<close>

definition K :: "int list" where
  "K =
     [0x428a2f98, 0x71374491, 0xb5c0fbcf, 0xe9b5dba5, 0x3956c25b, 0x59f111f1, 0x923f82a4, 0xab1c5ed5] @
     [0xd807aa98, 0x12835b01, 0x243185be, 0x550c7dc3, 0x72be5d74, 0x80deb1fe, 0x9bdc06a7, 0xc19bf174] @
     [0xe49b69c1, 0xefbe4786, 0x0fc19dc6, 0x240ca1cc, 0x2de92c6f, 0x4a7484aa, 0x5cb0a9dc, 0x76f988da] @
     [0x983e5152, 0xa831c66d, 0xb00327c8, 0xbf597fc7, 0xc6e00bf3, 0xd5a79147, 0x06ca6351, 0x14292967] @
     [0x27b70a85, 0x2e1b2138, 0x4d2c6dfc, 0x53380d13, 0x650a7354, 0x766a0abb, 0x81c2c92e, 0x92722c85] @
     [0xa2bfe8a1, 0xa81a664b, 0xc24b8b70, 0xc76c51a3, 0xd192e819, 0xd6990624, 0xf40e3585, 0x106aa070] @
     [0x19a4c116, 0x1e376c08, 0x2748774c, 0x34b0bcb5, 0x391c0cb3, 0x4ed8aa4a, 0x5b9cca4f, 0x682e6ff3] @
     [0x748f82ee, 0x78a5636f, 0x84c87814, 0x8cc70208, 0x90befffa, 0xa4506ceb, 0xbef9a3f7, 0xc67178f2]"

text \<open>The value of the global \<^verbatim>\<open>H\<close> when the module is loaded.\<close>

definition H_init :: hash_state where
  "H_init = [
    0x6a09e667, 0xbb67ae85,
    0x3c6ef372, 0xa54ff53a,
    0x510e527f, 0x9b05688c,
    0x1f83d9ab, 0x5be0cd19]"

subsection \<open>Built-in conversions\<close>

text \<open>
  \<^verbatim>\<open>int.from_bytes(bs, byteorder = 'big', signed = False)\<close> and
  \<^verbatim>\<open>l.to_bytes(n, byteorder = 'big', signed = False)\<close>; the latter raises
  \<^verbatim>\<open>OverflowError\<close> on a negative number and on one that needs more than
  \<^verbatim>\<open>n\<close> bytes.
\<close>

definition from_bytes :: "bytes \<Rightarrow> int" where
  "from_bytes bs = foldl (\<lambda>acc b. acc * 256 + uint b) 0 bs"

definition to_bytes :: "int \<Rightarrow> nat \<Rightarrow> error + bytes" where
  "to_bytes l n =
     (if l < 0 \<or> 256 ^ n \<le> l then Inl OverflowError
      else Inr (map (\<lambda>i. word_of_int (drop_bit (8 * (n - 1 - i)) l)) [0..<n]))"

subsection \<open>Padding\<close>

definition perform_padding :: "bytes \<Rightarrow> int \<Rightarrow> error + bytes" where
  "perform_padding chunck input_size =
     (if \<not> length chunck \<le> 64 then Inl (BadChunkSize (length chunck))
      else if \<not> input_size < 2 ^ 64 then Inl (BadInputSize input_size)
      else
        let l = input_size;
            k = (440 - l) mod 512
        in case to_bytes l 8 of
             Inl e \<Rightarrow> Inl e
           | Inr lb \<Rightarrow> Inr (chunck @ [0x80] @ replicate (nat (drop_bit 3 k)) 0 @ lb))"

subsection \<open>Compression\<close>

text \<open>The first loop of \<^verbatim>\<open>compute_hash\<close>: one word per four bytes of the block.\<close>

definition parse_words :: "bytes \<Rightarrow> int list" where
  "parse_words block =
     map (\<lambda>wi. from_bytes (take 4 (drop (wi * 4) block))) [0..<drop_bit 2 (length block)]"

text \<open>The second loop: \<^verbatim>\<open>for wi in range(16, BLOCK_SIZE_BYTE)\<close>, appending one word each time.\<close>

definition extend_step :: "nat \<Rightarrow> int list \<Rightarrow> int list" where
  "extend_step wi words =
     words @ [(ssig1 (words ! (wi - 2)) + words ! (wi - 7)
               + ssig0 (words ! (wi - 15)) + words ! (wi - 16)) mod 2 ^ 32]"

definition extend_words :: "int list \<Rightarrow> int list" where
  "extend_words words = fold extend_step [16..<BLOCK_SIZE_BYTE] words"

text \<open>The third loop: one round updates the eight working variables.\<close>

type_synonym working = "int \<times> int \<times> int \<times> int \<times> int \<times> int \<times> int \<times> int"

definition round_step :: "int list \<Rightarrow> nat \<Rightarrow> working \<Rightarrow> working" where
  "round_step words t v =
     (case v of (a, b, c, d, e, f, g, h) \<Rightarrow>
        let t1 = (h + bsig1 e + ch e f g + K ! t + words ! t) mod 2 ^ 32;
            t2 = (bsig0 a + maj a b c) mod 2 ^ 32
        in ((t1 + t2) mod 2 ^ 32, a, b, c, (d + t1) mod 2 ^ 32, e, f, g))"

definition rounds :: "int list \<Rightarrow> working \<Rightarrow> working" where
  "rounds words v = fold (round_step words) [0..<BLOCK_SIZE_BYTE] v"

text \<open>The last loop: \<^verbatim>\<open>H[i] = (x + H[i]) % 2 ** 32\<close> for each working variable in turn.\<close>

definition add_back :: "working \<Rightarrow> hash_state \<Rightarrow> hash_state" where
  "add_back v H =
     (case v of (a, b, c, d, e, f, g, h) \<Rightarrow>
        fold (\<lambda>(i, x) H. H[i := (x + H ! i) mod 2 ^ 32])
             (zip [0..<8] [a, b, c, d, e, f, g, h]) H)"

text \<open>
  \<^verbatim>\<open>compute_hash(block)\<close> returns \<^verbatim>\<open>None\<close>; what it computes is left in the
  global \<^verbatim>\<open>H\<close>. The model returns the outcome of the call (an exception or
  \<^verbatim>\<open>None\<close>) together with the value of \<^verbatim>\<open>H\<close> afterwards.
\<close>

definition compute_hash :: "bytes \<Rightarrow> hash_state \<Rightarrow> (error + unit) \<times> hash_state" where
  "compute_hash block H =
     (if length block \<noteq> BLOCK_SIZE_BYTE then (Inl (BadBlockSize (length block)), H)
      else
        let words = extend_words (parse_words block)
        in if length H \<noteq> 8 then (Inl ValueError, H)
           else (Inr (), add_back (rounds words
                   (H ! 0, H ! 1, H ! 2, H ! 3, H ! 4, H ! 5, H ! 6, H ! 7)) H))"

subsection \<open>Driver and formatting\<close>

text \<open>\<^verbatim>\<open>f'{h:x}'\<close>: lowercase hexadecimal, no padding, a minus sign for a negative number.\<close>

definition hex_digit :: "nat \<Rightarrow> char" where
  "hex_digit d = ''0123456789abcdef'' ! d"

function hex_int :: "int \<Rightarrow> string" where
  "hex_int n =
     (if n < 16 then [hex_digit (nat n)]
      else hex_int (n div 16) @ [hex_digit (nat (n mod 16))])"
  by pat_completeness auto
termination
  by (relation "measure nat") auto

declare hex_int.simps [simp del]

definition format_x :: "int \<Rightarrow> string" where
  "format_x h = (if h < 0 then CHR ''-'' # hex_int (- h) else hex_int h)"

text \<open>
  \<^verbatim>\<open>for i in range(0, len(chunck), BLOCK_SIZE_BYTE): compute_hash(chunck[i:i + BLOCK_SIZE_BYTE])\<close>.
  An exception leaves the loop.
\<close>

fun hash_slices :: "bytes \<Rightarrow> nat list \<Rightarrow> hash_state \<Rightarrow> (error + unit) \<times> hash_state" where
  "hash_slices chunck [] H = (Inr (), H)"
| "hash_slices chunck (i # is) H =
     (case compute_hash (take BLOCK_SIZE_BYTE (drop i chunck)) H of
        (Inl e, H') \<Rightarrow> (Inl e, H')
      | (Inr _, H') \<Rightarrow> hash_slices chunck is H')"

definition range_step :: "nat \<Rightarrow> nat \<Rightarrow> nat list" where
  "range_step n s = map (\<lambda>j. j * s) [0..<(n + s - 1) div s]"

text \<open>
  \<^verbatim>\<open>while chunck := f.read(BLOCK_SIZE_BYTE)\<close>: the file is the list of bytes not
  yet read; a read takes up to 64 of them, and the loop ends at the first empty read.
\<close>

function read_loop :: "bytes \<Rightarrow> int \<Rightarrow> int \<Rightarrow> hash_state \<Rightarrow> (error + unit) \<times> hash_state" where
  "read_loop f file_size nb_chuncks H =
     (let chunck = take BLOCK_SIZE_BYTE f;
          f' = drop BLOCK_SIZE_BYTE f
      in if chunck = [] then (Inr (), H)
         else
           case (if nb_chuncks = 1 then perform_padding chunck file_size else Inr chunck) of
             Inl e \<Rightarrow> (Inl e, H)
           | Inr chunck' \<Rightarrow>
               (case hash_slices chunck' (range_step (length chunck') BLOCK_SIZE_BYTE) H of
                  (Inl e, H') \<Rightarrow> (Inl e, H')
                | (Inr _, H') \<Rightarrow> read_loop f' file_size (nb_chuncks - 1) H'))"
  by pat_completeness auto
termination
  by (relation "measure (\<lambda>(f, _, _, _). length f)") (auto simp: BLOCK_SIZE_BYTE_def)

declare read_loop.simps [simp del]

text \<open>
  \<^verbatim>\<open>main\<close>, from the size check on. The first argument is the content of the file
  named on the command line, whose size is what \<^verbatim>\<open>os.stat\<close> reports; the
  checks of \<^verbatim>\<open>sys.argv\<close> and of the file's existence are left out. \<^verbatim>\<open>main\<close> takes no
  hash state and never assigns the initial values to \<^verbatim>\<open>H\<close>: the second argument of the
  model is what the global \<^verbatim>\<open>H\<close> holds when \<^verbatim>\<open>main\<close> is called, \<open>H_init\<close> for the first call
  in a process and whatever the previous call left for a later one; the second component
  of the result is what \<^verbatim>\<open>H\<close> holds afterwards.
\<close>

definition main :: "bytes \<Rightarrow> hash_state \<Rightarrow> (error + string) \<times> hash_state" where
  "main content H =
     (let file_size = int (length content) * 8
      in if file_size \<ge> 2 ^ 64 then (Inl FileTooBig, H)
         else
           case (if file_size = 0 then
                   (case perform_padding [] file_size of
                      Inl e \<Rightarrow> (Inl e, H)
                    | Inr block \<Rightarrow> compute_hash block H)
                 else
                   let nb_chuncks = drop_bit 9 file_size;
                       nb_chuncks = (if file_size mod (int BLOCK_SIZE_BYTE * 8) \<noteq> 0
                                     then nb_chuncks + 1 else nb_chuncks)
                   in read_loop content file_size nb_chuncks H) of
             (Inl e, H') \<Rightarrow> (Inl e, H')
           | (Inr _, H') \<Rightarrow> (Inr (concat (map format_x H')), H'))"

section \<open>The specification's formulations\<close>

subsection \<open>The compression function on 32-bit words\<close>

text \<open>
  The specification describes the compression engine on unsigned 32-bit words, whose
  addition wraps by itself: rotation within the word, the six logical functions, the
  big-endian parse of the block, the message schedule as a recurrence, and 64 rounds.
\<close>

type_synonym word32 = "32 word"

definition spec_ch :: "word32 \<Rightarrow> word32 \<Rightarrow> word32 \<Rightarrow> word32" where
  "spec_ch x y z = (x AND y) XOR (NOT x AND z)"

definition spec_maj :: "word32 \<Rightarrow> word32 \<Rightarrow> word32 \<Rightarrow> word32" where
  "spec_maj x y z = (x AND y) XOR (x AND z) XOR (y AND z)"

definition spec_bsig0 :: "word32 \<Rightarrow> word32" where
  "spec_bsig0 x = word_rotr 2 x XOR word_rotr 13 x XOR word_rotr 22 x"

definition spec_bsig1 :: "word32 \<Rightarrow> word32" where
  "spec_bsig1 x = word_rotr 6 x XOR word_rotr 11 x XOR word_rotr 25 x"

definition spec_ssig0 :: "word32 \<Rightarrow> word32" where
  "spec_ssig0 x = word_rotr 7 x XOR word_rotr 18 x XOR drop_bit 3 x"

definition spec_ssig1 :: "word32 \<Rightarrow> word32" where
  "spec_ssig1 x = word_rotr 17 x XOR word_rotr 19 x XOR drop_bit 10 x"

definition spec_K :: "nat \<Rightarrow> word32" where
  "spec_K t = word_of_int (K ! t)"

text \<open>\<open>W[t]\<close>: the big-endian word at bytes \<open>4t \<dots> 4t+3\<close> for \<open>t < 16\<close>, the recurrence above.\<close>

fun spec_W :: "bytes \<Rightarrow> nat \<Rightarrow> word32" where
  "spec_W block t =
     (if t < 16 then word_rcat [block ! (4 * t), block ! (4 * t + 1), block ! (4 * t + 2), block ! (4 * t + 3)]
      else spec_ssig1 (spec_W block (t - 2)) + spec_W block (t - 7)
           + spec_ssig0 (spec_W block (t - 15)) + spec_W block (t - 16))"

declare spec_W.simps [simp del]

type_synonym spec_working =
  "word32 \<times> word32 \<times> word32 \<times> word32 \<times> word32 \<times> word32 \<times> word32 \<times> word32"

fun spec_round :: "bytes \<Rightarrow> nat \<Rightarrow> spec_working \<Rightarrow> spec_working" where
  "spec_round block t (a, b, c, d, e, f, g, h) =
     (let T1 = h + spec_bsig1 e + spec_ch e f g + spec_K t + spec_W block t;
          T2 = spec_bsig0 a + spec_maj a b c
      in (T1 + T2, a, b, c, d + T1, e, f, g))"

text \<open>The working variables of the script, read off from eight words.\<close>

definition working_of :: "spec_working \<Rightarrow> working" where
  "working_of v =
     (case v of (a, b, c, d, e, f, g, h) \<Rightarrow>
        (uint a, uint b, uint c, uint d, uint e, uint f, uint g, uint h))"

text \<open>\<open>spec_rounds block n\<close> runs the rounds \<open>t = 0, \<dots>, n - 1\<close>.\<close>

fun spec_rounds :: "bytes \<Rightarrow> nat \<Rightarrow> spec_working \<Rightarrow> spec_working" where
  "spec_rounds block 0 v = v"
| "spec_rounds block (Suc t) v = spec_round block t (spec_rounds block t v)"

definition spec_compress :: "bytes \<Rightarrow> word32 list \<Rightarrow> word32 list" where
  "spec_compress block hs =
     (case spec_rounds block 64 (hs ! 0, hs ! 1, hs ! 2, hs ! 3, hs ! 4, hs ! 5, hs ! 6, hs ! 7) of
        (a, b, c, d, e, f, g, h) \<Rightarrow> map2 (+) [a, b, c, d, e, f, g, h] hs)"

subsection \<open>Single-shot hashing\<close>

text \<open>
  The padded message as the specification's padding invariant describes it: the data, the
  byte \<open>0x80\<close>, the least number of zero bytes that leaves eight bytes to the next
  64-byte boundary, and the bit length in eight bytes, most significant first.
\<close>

definition spec_zero_count :: "nat \<Rightarrow> nat" where
  "spec_zero_count n = (64 - (n + 9) mod 64) mod 64"

definition spec_length_field :: "nat \<Rightarrow> bytes" where
  "spec_length_field bits = map (\<lambda>i. word_of_nat (bits div 256 ^ (7 - i))) [0..<8]"

definition spec_pad :: "bytes \<Rightarrow> bytes" where
  "spec_pad msg =
     msg @ [0x80] @ replicate (spec_zero_count (length msg)) 0
         @ spec_length_field (8 * length msg)"

text \<open>The 64-byte blocks of a byte sequence, in order.\<close>

function chop :: "bytes \<Rightarrow> bytes list" where
  "chop bs = (if bs = [] then [] else take 64 bs # chop (drop 64 bs))"
  by pat_completeness auto
termination
  by (relation "measure length") auto

declare chop.simps [simp del]

fun compress_all :: "bytes list \<Rightarrow> hash_state \<Rightarrow> (error + unit) \<times> hash_state" where
  "compress_all [] H = (Inr (), H)"
| "compress_all (b # bs) H =
     (case compute_hash b H of
        (Inl e, H') \<Rightarrow> (Inl e, H')
      | (Inr _, H') \<Rightarrow> compress_all bs H')"

text \<open>
  Single-shot hashing pads the whole message at once and compresses its blocks in order;
  like the driver it refuses a message of \<open>2\<^sup>6\<^sup>4\<close> bits or more.
\<close>

definition oneshot :: "bytes \<Rightarrow> hash_state \<Rightarrow> (error + unit) \<times> hash_state" where
  "oneshot msg H =
     (if 2 ^ 64 \<le> int (length msg) * 8 then (Inl FileTooBig, H)
      else compress_all (chop (spec_pad msg)) H)"

section \<open>Properties\<close>

subsection \<open>Byte conversions\<close>

lemma from_bytes_acc:
  "foldl (\<lambda>acc b. acc * 256 + uint b) a bs = a * 256 ^ length bs + from_bytes bs"
proof -
  let ?f = "\<lambda>(acc :: int) (b :: byte). acc * 256 + uint b"
  have "foldl ?f a bs = a * 256 ^ length bs + foldl ?f 0 bs" for a
  proof (induction bs arbitrary: a)
    case Nil
    show ?case by simp
  next
    case (Cons b bs)
    have "foldl ?f a (b # bs) = foldl ?f (a * 256 + uint b) bs"
      by simp
    also have "\<dots> = (a * 256 + uint b) * 256 ^ length bs + foldl ?f 0 bs"
      by (rule Cons.IH)
    finally have l: "foldl ?f a (b # bs) = (a * 256 + uint b) * 256 ^ length bs + foldl ?f 0 bs" .
    have "foldl ?f 0 (b # bs) = foldl ?f (uint b) bs"
      by simp
    also have "\<dots> = uint b * 256 ^ length bs + foldl ?f 0 bs"
      by (rule Cons.IH)
    finally have r: "foldl ?f 0 (b # bs) = uint b * 256 ^ length bs + foldl ?f 0 bs" .
    show ?case
      unfolding l r by (simp add: algebra_simps)
  qed
  then show ?thesis
    unfolding from_bytes_def .
qed

lemma from_bytes_Cons:
  "from_bytes (b # bs) = uint b * 256 ^ length bs + from_bytes bs"
proof -
  have "from_bytes (b # bs) = foldl (\<lambda>acc b. acc * 256 + uint b) (uint b) bs"
    by (simp add: from_bytes_def)
  then show ?thesis
    by (simp only: from_bytes_acc)
qed

lemma from_bytes_big_endian:
  "from_bytes (map (\<lambda>i. word_of_int (drop_bit (8 * (n - 1 - i)) l)) [0..<n]) = l mod 256 ^ n"
proof (induction n)
  case 0
  show ?case by (simp add: from_bytes_def)
next
  case (Suc n)
  have eq: "map (\<lambda>i. word_of_int (drop_bit (8 * (Suc n - 1 - i)) l) :: byte) [0..<Suc n]
          = word_of_int (drop_bit (8 * n) l)
            # map (\<lambda>i. word_of_int (drop_bit (8 * (n - 1 - i)) l)) [0..<n]"
    by (simp add: map_upt_Suc del: upt_Suc)
  have p: "(2::int) ^ (8 * n) = 256 ^ n"
    by (simp add: power_mult)
  have d: "uint (word_of_int (drop_bit (8 * n) l) :: byte) = l div 256 ^ n mod 256"
    by (simp only: uint_word_of_int drop_bit_eq_div p) simp
  have m: "l mod (256 ^ n * 256) = 256 ^ n * (l div 256 ^ n mod 256) + l mod 256 ^ n"
    by (rule zmod_zmult2_eq) simp
  have "from_bytes (map (\<lambda>i. word_of_int (drop_bit (8 * (Suc n - 1 - i)) l) :: byte) [0..<Suc n])
      = (l div 256 ^ n mod 256) * 256 ^ n + l mod 256 ^ n"
    unfolding eq from_bytes_Cons Suc.IH d by simp
  also have "\<dots> = l mod 256 ^ Suc n"
    unfolding power_Suc2 m by (simp only: mult.commute)
  finally show ?case .
qed

lemma to_bytes_ok:
  assumes "0 \<le> l" and "l < 256 ^ n"
  shows "\<exists>lb. to_bytes l n = Inr lb \<and> length lb = n \<and> from_bytes lb = l"
proof -
  let ?lb = "map (\<lambda>i. word_of_int (drop_bit (8 * (n - 1 - i)) l) :: byte) [0..<n]"
  have "to_bytes l n = Inr ?lb"
    using assms by (simp only: to_bytes_def) simp
  moreover have "length ?lb = n"
    by simp
  moreover have "from_bytes ?lb = l"
    unfolding from_bytes_big_endian using assms by simp
  ultimately show ?thesis
    by blast
qed

subsection \<open>The number of zero bytes\<close>

lemma mod64_add9:
  assumes "r < (64::nat)"
  shows "(r + 9) mod 64 = (if r \<le> 54 then r + 9 else r - 55)"
proof (cases "r \<le> 54")
  case True
  then show ?thesis by simp
next
  case False
  have "(r + 9) mod 64 = (r - 55 + 64) mod 64"
    using False by (intro arg_cong [where f = "\<lambda>x. x mod 64"]) linarith
  also have "\<dots> = (r - 55) mod 64"
    by (rule mod_add_self2)
  also have "\<dots> = r - 55"
    using assms by (intro mod_less) linarith
  finally show ?thesis
    using False by simp
qed

lemma spec_zero_count_split:
  assumes "r < 64"
  shows "spec_zero_count (64 * q + r) = (if r \<le> 55 then 55 - r else 119 - r)"
proof -
  have "(64 * q + r + 9) mod 64 = (r + 9) mod 64"
    by (simp only: add.assoc mod_mult_self4)
  then have z: "spec_zero_count (64 * q + r) = (64 - (if r \<le> 54 then r + 9 else r - 55)) mod 64"
    by (simp only: spec_zero_count_def mod64_add9 [OF assms])
  show ?thesis
  proof (cases "r \<le> 54")
    case True
    then have "spec_zero_count (64 * q + r) = (55 - r) mod 64"
      unfolding z by (intro arg_cong [where f = "\<lambda>x. x mod 64"]) simp
    also have "\<dots> = 55 - r"
      by (intro mod_less) linarith
    finally show ?thesis
      using True by simp
  next
    case False
    show ?thesis
    proof (cases "r = 55")
      case True
      then show ?thesis
        unfolding z by simp
    next
      case r: False
      with False have "spec_zero_count (64 * q + r) = (119 - r) mod 64"
        unfolding z by (intro arg_cong [where f = "\<lambda>x. x mod 64"]) simp
      also have "\<dots> = 119 - r"
        using False r by (intro mod_less) linarith
      finally show ?thesis
        using False r by simp
    qed
  qed
qed

lemma spec_zero_count_cases:
  "spec_zero_count n = (if n mod 64 \<le> 55 then 55 - n mod 64 else 119 - n mod 64)"
proof -
  have "spec_zero_count (64 * (n div 64) + n mod 64)
        = (if n mod 64 \<le> 55 then 55 - n mod 64 else 119 - n mod 64)"
    by (rule spec_zero_count_split) simp
  then show ?thesis
    by (simp only: mult_div_mod_eq)
qed

lemma spec_zero_count_less: "spec_zero_count n < 64"
  by (simp add: spec_zero_count_def)

lemma padded_length:
  "n + 1 + spec_zero_count n + 8 = 64 * (n div 64) + (if n mod 64 \<le> 55 then 64 else 128)"
proof -
  define q r where "q = n div 64" and "r = n mod 64"
  have n: "n = 64 * q + r" and r: "r < 64"
    by (simp_all add: q_def r_def)
  have z: "spec_zero_count n = (if r \<le> 55 then 55 - r else 119 - r)"
    unfolding spec_zero_count_cases r_def ..
  have "n + 1 + (if r \<le> 55 then 55 - r else 119 - r) + 8
        = 64 * q + (if r \<le> 55 then 64 else 128)"
    using n r by (simp split: if_splits)
  then show ?thesis
    unfolding z q_def r_def .
qed

lemma spec_zero_count_boundary: "(n + 1 + spec_zero_count n + 8) mod 64 = 0"
  unfolding padded_length by simp

lemma spec_zero_count_least:
  assumes "z < spec_zero_count n"
  shows "(n + 1 + z + 8) mod 64 \<noteq> 0"
proof -
  define r where "r = n mod 64"
  have n: "n = 64 * (n div 64) + r" and r: "r < 64"
    by (simp_all add: r_def)
  have z: "z < (if r \<le> 55 then 55 - r else 119 - r)"
    using assms unfolding spec_zero_count_cases r_def .
  have "(n + 1 + z + 8) mod 64 = (64 * (n div 64) + (r + 9 + z)) mod 64"
    by (intro arg_cong [where f = "\<lambda>x. x mod 64"]) (use n in linarith)
  also have "\<dots> = (r + 9 + z) mod 64"
    by (rule mod_mult_self4)
  finally have m: "(n + 1 + z + 8) mod 64 = (r + 9 + z) mod 64" .
  show ?thesis
  proof (cases "r \<le> 55")
    case True
    with z have "r + 9 + z < 64"
      by simp
    then have "(r + 9 + z) mod 64 = r + 9 + z"
      by (rule mod_less)
    then show ?thesis
      unfolding m by simp
  next
    case False
    with z r have b: "64 \<le> r + 9 + z" "r + 9 + z - 64 < 64" "0 < r + 9 + z - 64"
      by simp_all
    have "(r + 9 + z) mod 64 = (r + 9 + z - 64) mod 64"
      using b(1) by (rule le_mod_geq)
    also have "\<dots> = r + 9 + z - 64"
      using b(2) by (rule mod_less)
    finally show ?thesis
      unfolding m using b(3) by simp
  qed
qed

subsection \<open>The shape of the padding\<close>

lemma padding_zero_count:
  assumes "L mod 512 = (8 * int n) mod 512"
  shows "nat (drop_bit 3 ((440 - L) mod 512)) = spec_zero_count n"
proof -
  define q r where "q = int (n div 64)" and "r = int (n mod 64)"
  have "int n = int (64 * (n div 64) + n mod 64)"
    by (simp only: mult_div_mod_eq)
  then have n: "int n = 64 * q + r"
    by (simp only: q_def r_def of_nat_add of_nat_mult of_nat_numeral)
  have r: "0 \<le> r" "r < 64"
    by (simp_all add: r_def)
  have "(440 - L) mod 512 = (440 - 8 * int n) mod 512"
    using assms by (rule mod_diff_cong [OF refl])
  then have k: "(440 - L) mod 512 = (440 - 8 * int n) mod 512" .
  show ?thesis
  proof (cases "r \<le> 55")
    case True
    have "(440 - 8 * int n) mod 512 = 440 - 8 * r"
      by (rule int_mod_pos_eq [where q = "- q"]) (use n r True in simp_all)
    moreover have "(440 - 8 * r) div 8 = 55 - r"
      by simp
    ultimately have "nat (drop_bit 3 ((440 - L) mod 512)) = nat (55 - r)"
      by (simp only: k drop_bit_eq_div) simp
    also have "\<dots> = 55 - n mod 64"
      by (simp add: r_def)
    finally show ?thesis
      using True by (simp add: spec_zero_count_cases r_def)
  next
    case False
    have "(440 - 8 * int n) mod 512 = 952 - 8 * r"
      by (rule int_mod_pos_eq [where q = "- q - 1"]) (use n r False in simp_all)
    moreover have "(952 - 8 * r) div 8 = 119 - r"
      by simp
    ultimately have "nat (drop_bit 3 ((440 - L) mod 512)) = nat (119 - r)"
      by (simp only: k drop_bit_eq_div) simp
    also have "\<dots> = 119 - n mod 64"
      by (simp add: r_def)
    finally show ?thesis
      using False by (simp add: spec_zero_count_cases r_def)
  qed
qed

lemma byte_of_shifted_nat:
  "word_of_int (drop_bit (8 * k) (int bits)) = (word_of_nat (bits div 256 ^ k) :: byte)"
proof -
  have "(2::nat) ^ (8 * k) = 256 ^ k"
    by (simp add: power_mult)
  then have a: "drop_bit (8 * k) bits = bits div 256 ^ k"
    by (simp only: drop_bit_eq_div)
  have b: "drop_bit (8 * k) (int bits) = int (drop_bit (8 * k) bits)"
    by (rule drop_bit_of_nat)
  show ?thesis
    by (simp only: b a of_int_of_nat_eq)
qed

lemma spec_length_field_to_bytes:
  assumes "to_bytes (int bits) 8 = Inr lb"
  shows "spec_length_field bits = lb"
proof (cases "int bits < 0 \<or> 256 ^ 8 \<le> int bits")
  case True
  then have "to_bytes (int bits) 8 = Inl OverflowError"
    by (simp only: to_bytes_def if_True)
  with assms have "(Inl OverflowError :: error + bytes) = Inr lb"
    by (simp only:)
  then show ?thesis
    by (simp only: sum.distinct)
next
  case False
  then have e: "to_bytes (int bits) 8
      = Inr (map (\<lambda>i. word_of_int (drop_bit (8 * (8 - 1 - i)) (int bits))) [0..<8])"
    by (simp only: to_bytes_def if_False)
  have "map (\<lambda>i. word_of_int (drop_bit (8 * (8 - 1 - i)) (int bits))) [0..<8] = lb"
    using assms [unfolded e] by (rule Inr_inject)
  moreover have "8 - 1 - i = 7 - i" for i :: nat
    by simp
  ultimately show ?thesis
    by (simp only: byte_of_shifted_nat spec_length_field_def)
qed

lemma perform_padding_shape:
  assumes "length chunck \<le> 64" and "0 \<le> L" and "L < 2 ^ 64"
  shows "\<exists>lb. to_bytes L 8 = Inr lb \<and> length lb = 8 \<and> from_bytes lb = L \<and>
           perform_padding chunck L =
             Inr (chunck @ [0x80] @ replicate (nat (drop_bit 3 ((440 - L) mod 512))) 0 @ lb)"
proof -
  from assms obtain lb where lb: "to_bytes L 8 = Inr lb" "length lb = 8" "from_bytes lb = L"
    using to_bytes_ok [of L 8] by auto
  have "perform_padding chunck L =
          Inr (chunck @ [0x80] @ replicate (nat (drop_bit 3 ((440 - L) mod 512))) 0 @ lb)"
    using assms lb(1) by (simp add: perform_padding_def Let_def)
  with lb show ?thesis
    by blast
qed

section \<open>Padding\<close>

text \<open>
  C3, as stated: for every chunk of at most 64 bytes and every bit length below \<open>2\<^sup>6\<^sup>4\<close>
  the output of \<^verbatim>\<open>perform_padding\<close> is a positive multiple of 64 bytes long. The number of
  zero bytes is computed from the bit length alone, so it fits only a chunk of the matching
  length: the empty chunk with bit length 8 gives 63 bytes.
\<close>

theorem perform_padding_counterexample:
  "perform_padding [] 8 = Inr (0x80 # replicate 54 0 @ [0, 0, 0, 0, 0, 0, 0, 8]) \<and>
   length (0x80 # replicate 54 0 @ [0, 0, 0, 0, 0, 0, 0, 8 :: byte]) mod 64 = 63"
  by code_simp

text \<open>
  C3, amended: for every chunk of \<open>n \<le> 64\<close> bytes and every bit length \<open>0 \<le> L < 2\<^sup>6\<^sup>4\<close>
  with \<open>L \<equiv> 8n (mod 512)\<close>, that is, when the chunk is the last chunk of a message of \<open>L\<close>
  bits, \<^verbatim>\<open>perform_padding\<close> returns the chunk, one byte \<open>0x80\<close>, the least number of zero
  bytes that leaves exactly eight bytes to the next 64-byte boundary, and the eight-byte
  big-endian encoding of \<open>L\<close>. The output length is a positive multiple of 64, its last
  eight bytes decode to \<open>L\<close>, and for \<open>56 \<le> n \<le> 63\<close> the output has 128 bytes, the second
  block being 56 zero bytes followed by the length field.
\<close>

theorem perform_padding_final_chunk:
  assumes "length chunck \<le> 64" and "0 \<le> L" and "L < 2 ^ 64"
    and "L mod 512 = (8 * int (length chunck)) mod 512"
  shows "\<exists>z lb out.
           perform_padding chunck L = Inr out \<and>
           out = chunck @ [0x80] @ replicate z 0 @ lb \<and>
           (length chunck + 1 + z + 8) mod 64 = 0 \<and>
           (\<forall>z' < z. (length chunck + 1 + z' + 8) mod 64 \<noteq> 0) \<and>
           to_bytes L 8 = Inr lb \<and> length lb = 8 \<and> from_bytes lb = L \<and>
           0 < length out \<and> length out mod 64 = 0 \<and>
           from_bytes (drop (length out - 8) out) = L \<and>
           (56 \<le> length chunck \<and> length chunck \<le> 63 \<longrightarrow>
              length out = 128 \<and> drop 64 out = replicate 56 0 @ lb)"
proof -
  define n where "n = length chunck"
  define z where "z = spec_zero_count n"
  from assms(1-3) obtain lb where lb: "to_bytes L 8 = Inr lb" "length lb = 8" "from_bytes lb = L"
    and p: "perform_padding chunck L =
             Inr (chunck @ [0x80] @ replicate (nat (drop_bit 3 ((440 - L) mod 512))) 0 @ lb)"
    using perform_padding_shape by blast
  define out where "out = chunck @ [0x80] @ replicate z 0 @ lb"
  have "nat (drop_bit 3 ((440 - L) mod 512)) = z"
    unfolding z_def n_def using assms(4) by (rule padding_zero_count)
  with p have 1: "perform_padding chunck L = Inr out"
    by (simp only: out_def)
  have len: "length out = n + 1 + z + 8"
    by (simp add: out_def n_def lb(2))
  have 2: "(n + 1 + z + 8) mod 64 = 0"
    unfolding z_def by (rule spec_zero_count_boundary)
  have 3: "\<forall>z' < z. (n + 1 + z' + 8) mod 64 \<noteq> 0"
  proof (intro allI impI)
    fix z'
    assume "z' < z"
    then show "(n + 1 + z' + 8) mod 64 \<noteq> 0"
      unfolding z_def by (rule spec_zero_count_least)
  qed
  have 4: "0 < length out" "length out mod 64 = 0"
    using 2 by (simp_all add: len)
  have "drop (length out - 8) out = lb"
    by (simp add: out_def lb(2))
  then have 5: "from_bytes (drop (length out - 8) out) = L"
    by (simp only: lb(3))
  have 6: "length out = 128 \<and> drop 64 out = replicate 56 0 @ lb"
    if "56 \<le> n" "n \<le> 63"
  proof -
    from that have "n mod 64 = n"
      by simp
    with that have zz: "z = 119 - n"
      unfolding z_def spec_zero_count_cases by simp
    have "length out = 128"
      using that by (simp add: len zz)
    moreover have "drop 64 out = drop (63 - n) (replicate (119 - n) 0) @ lb"
      using that by (simp add: out_def zz n_def [symmetric] Suc_diff_le drop_Cons')
    moreover have "drop (63 - n) (replicate (119 - n) (0::byte)) = replicate 56 0"
      using that by simp
    ultimately show ?thesis
      by simp
  qed
  show ?thesis
  proof (intro exI conjI)
    show "perform_padding chunck L = Inr out"
      by (fact 1)
    show "out = chunck @ [0x80] @ replicate z 0 @ lb"
      by (fact out_def)
    show "(length chunck + 1 + z + 8) mod 64 = 0"
      using 2 unfolding n_def .
    show "\<forall>z' < z. (length chunck + 1 + z' + 8) mod 64 \<noteq> 0"
      using 3 unfolding n_def .
    show "to_bytes L 8 = Inr lb" "length lb = 8" "from_bytes lb = L"
      by (fact lb)+
    show "0 < length out" "length out mod 64 = 0"
      by (fact 4)+
    show "from_bytes (drop (length out - 8) out) = L"
      by (fact 5)
    show "56 \<le> length chunck \<and> length chunck \<le> 63 \<longrightarrow>
            length out = 128 \<and> drop 64 out = replicate 56 0 @ lb"
      using 6 unfolding n_def by (intro impI) (elim conjE)
  qed
qed

theorem perform_padding_final_chunk_witness:
  "length (replicate 60 (0x61::byte)) \<le> 64 \<and> (0::int) \<le> 480 \<and> (480::int) < 2 ^ 64 \<and>
   (480::int) mod 512 = (8 * int (length (replicate 60 (0x61::byte)))) mod 512 \<and>
   (\<exists>z lb out.
     perform_padding (replicate 60 0x61) 480 = Inr out \<and>
     out = replicate 60 0x61 @ [0x80] @ replicate z 0 @ lb \<and>
     (length (replicate 60 (0x61::byte)) + 1 + z + 8) mod 64 = 0 \<and>
     (\<forall>z' < z. (length (replicate 60 (0x61::byte)) + 1 + z' + 8) mod 64 \<noteq> 0) \<and>
     to_bytes 480 8 = Inr lb \<and> length lb = 8 \<and> from_bytes lb = 480 \<and>
     0 < length out \<and> length out mod 64 = 0 \<and>
     from_bytes (drop (length out - 8) out) = 480 \<and>
     (56 \<le> length (replicate 60 (0x61::byte)) \<and> length (replicate 60 (0x61::byte)) \<le> 63 \<longrightarrow>
        length out = 128 \<and> drop 64 out = replicate 56 0 @ lb))"
proof -
  have h: "length (replicate 60 (0x61::byte)) \<le> 64" "(0::int) \<le> 480" "(480::int) < 2 ^ 64"
    "(480::int) mod 512 = (8 * int (length (replicate 60 (0x61::byte)))) mod 512"
    by simp_all
  note c = perform_padding_final_chunk [OF h]
  show ?thesis
    by (intro conjI h c)
qed

section \<open>The size limit\<close>

lemma main_too_big:
  assumes "2 ^ 64 \<le> int (length content) * 8"
  shows "main content H = (Inl FileTooBig, H)"
  using assms by (simp only: main_def Let_def if_True)



section \<open>The compression function and the global state\<close>

lemma length_8E:
  assumes "length (H :: 'a list) = 8"
  obtains h0 h1 h2 h3 h4 h5 h6 h7 where "H = [h0, h1, h2, h3, h4, h5, h6, h7]"
proof -
  from assms have "\<exists>h0 h1 h2 h3 h4 h5 h6 h7. H = [h0, h1, h2, h3, h4, h5, h6, h7]"
    by (auto simp add: eval_nat_numeral length_Suc_conv)
  with that show thesis
    by blast
qed

lemma add_back_explicit:
  "add_back (a, b, c, d, e, f, g, h) [h0, h1, h2, h3, h4, h5, h6, h7] =
     [(a + h0) mod 2 ^ 32, (b + h1) mod 2 ^ 32, (c + h2) mod 2 ^ 32, (d + h3) mod 2 ^ 32,
      (e + h4) mod 2 ^ 32, (f + h5) mod 2 ^ 32, (g + h6) mod 2 ^ 32, (h + h7) mod 2 ^ 32]"
proof -
  have "zip [0..<8] [a, b, c, d, e, f, g, h]
      = [(0, a), (Suc 0, b), (2, c), (3, d), (4, e), (5, f), (6, g), (7, h)]"
    by (simp add: upt_rec)
  then show ?thesis
    unfolding add_back_def by simp
qed

lemma add_back_range:
  assumes "length H = 8"
  shows "length (add_back v H) = 8 \<and> (\<forall>x \<in> set (add_back v H). 0 \<le> x \<and> x < 2 ^ 32)"
proof -
  obtain a b c d e f g h where v: "v = (a, b, c, d, e, f, g, h)"
    by (cases v) auto
  from assms obtain h0 h1 h2 h3 h4 h5 h6 h7 where H: "H = [h0, h1, h2, h3, h4, h5, h6, h7]"
    by (rule length_8E)
  show ?thesis
    unfolding v H add_back_explicit by simp
qed

lemma compute_hash_success:
  assumes "length block = 64" and "length H = 8"
  shows "compute_hash block H =
           (Inr (), add_back (rounds (extend_words (parse_words block))
                      (H ! 0, H ! 1, H ! 2, H ! 3, H ! 4, H ! 5, H ! 6, H ! 7)) H)"
  using assms by (simp add: compute_hash_def BLOCK_SIZE_BYTE_def Let_def)

lemma compute_hash_ok:
  assumes "length block = 64" and "length H = 8"
  shows "\<exists>H'. compute_hash block H = (Inr (), H') \<and> length H' = 8 \<and>
           (\<forall>x \<in> set H'. 0 \<le> x \<and> x < 2 ^ 32)"
  unfolding compute_hash_success [OF assms] using add_back_range [OF assms(2)] by blast

section \<open>The block driver\<close>

subsection \<open>Blocks and block counts\<close>

lemma chop_Nil: "chop [] = []"
  by (simp add: chop.simps)

lemma chop_nonempty: "bs \<noteq> [] \<Longrightarrow> chop bs = take 64 bs # chop (drop 64 bs)"
  by (subst chop.simps) simp

lemma chop_append_block:
  assumes "length a = 64"
  shows "chop (a @ b) = a # chop b"
proof -
  from assms have "a @ b \<noteq> []"
    by auto
  then have "chop (a @ b) = take 64 (a @ b) # chop (drop 64 (a @ b))"
    by (rule chop_nonempty)
  with assms show ?thesis
    by simp
qed

lemma outcome_id:
  "(case r of (Inl e, H') \<Rightarrow> (Inl e, H') | (Inr u, H') \<Rightarrow> (Inr (), H')) = (r :: (error + unit) \<times> hash_state)"
  by (simp split: prod.splits sum.splits)

lemma blocks_needed:
  "(n + 63) div 64 = n div 64 + (if n mod 64 = 0 then 0 else 1)" for n :: nat
proof -
  define q r where "q = n div 64" and "r = n mod 64"
  have n: "n = 64 * q + r" and r: "r < 64"
    by (simp_all add: q_def r_def)
  have "(64 * q + r + 63) div 64 = q + (if r = 0 then 0 else 1)"
  proof (cases "r = 0")
    case True
    then show ?thesis
      by simp
  next
    case False
    then have "64 * q + r + 63 = 64 * (q + 1) + (r - 1)"
      by simp
    moreover have "(64 * (q + 1) + (r - 1)) div 64 = q + 1"
      using r by simp
    ultimately show ?thesis
      using False by simp
  qed
  then have "(n + 63) div 64 = q + (if r = 0 then 0 else 1)"
    by (simp only: n [symmetric])
  then show ?thesis
    by (simp only: q_def r_def)
qed

lemma blocks_needed_less:
  "k < (n + 63) div 64 \<longleftrightarrow> k * 64 < n" for n :: nat
proof -
  define q r where "q = n div 64" and "r = n mod 64"
  have n: "n = 64 * q + r" and r: "r < 64"
    by (simp_all add: q_def r_def)
  have "k < q + (if r = 0 then 0 else 1) \<longleftrightarrow> k * 64 < 64 * q + r"
    using r by (cases "r = 0") (simp_all, linarith)
  then have "k < q + (if r = 0 then 0 else 1) \<longleftrightarrow> k * 64 < n"
    by (simp only: n [symmetric])
  then show ?thesis
    by (simp only: blocks_needed q_def r_def)
qed

subsection \<open>The loop over the slices of a chunk\<close>

lemma range_step_blocks:
  "range_step (length c) BLOCK_SIZE_BYTE = map (\<lambda>j. j * 64) [0..<(length c + 63) div 64]"
  by (simp add: range_step_def BLOCK_SIZE_BYTE_def add.commute)

lemma hash_slices_from:
  assumes "m = (length c + 63) div 64"
  shows "hash_slices c (map (\<lambda>j. j * 64) [k..<m]) H = compress_all (chop (drop (k * 64) c)) H"
  using assms
proof (induction "m - k" arbitrary: k H)
  case 0
  then have "\<not> k < (length c + 63) div 64"
    by simp
  then have "length c \<le> k * 64"
    by (simp add: blocks_needed_less)
  with 0 show ?case
    by (simp add: chop_Nil)
next
  case (Suc d)
  then have km: "k < m"
    by simp
  with Suc.prems have "k * 64 < length c"
    by (simp only: blocks_needed_less)
  then have ne: "drop (k * 64) c \<noteq> []"
    by simp
  have "hash_slices c (map (\<lambda>j. j * 64) [Suc k..<m]) H'
        = compress_all (chop (drop (Suc k * 64) c)) H'" for H'
    using Suc.hyps Suc.prems by (intro Suc.hyps(1)) simp_all
  then have step: "hash_slices c (map (\<lambda>j. j * 64) [Suc k..<m]) H'
        = compress_all (chop (drop (64 + k * 64) c)) H'" for H'
    by simp
  have "chop (drop (k * 64) c) = take 64 (drop (k * 64) c) # chop (drop (Suc k * 64) c)"
    using chop_nonempty [OF ne] by (simp add: add.commute)
  moreover have "map (\<lambda>j. j * 64) [k..<m] = k * 64 # map (\<lambda>j. j * 64) [Suc k..<m]"
    using km by (simp add: upt_conv_Cons)
  ultimately show ?case
    by (simp add: step BLOCK_SIZE_BYTE_def split: prod.splits sum.splits)
qed

lemma hash_slices_chop:
  "hash_slices c (range_step (length c) BLOCK_SIZE_BYTE) H = compress_all (chop c) H"
  using hash_slices_from [of "(length c + 63) div 64" c 0 H]
  by (simp add: range_step_blocks)

lemma hash_slices_block:
  assumes "length c = 64"
  shows "hash_slices c (range_step (length c) BLOCK_SIZE_BYTE) H = compute_hash c H"
proof -
  have "chop c = [c]"
    using chop_append_block [OF assms, of "[]"] by (simp add: chop_Nil)
  then show ?thesis
    unfolding hash_slices_chop by (simp split: prod.splits sum.splits)
qed

subsection \<open>The loop over the chunks of the file\<close>

lemma read_loop_Nil: "read_loop [] file_size nb H = (Inr (), H)"
  by (subst read_loop.simps) (simp add: Let_def)

lemma read_loop_last:
  assumes "f \<noteq> []" and "length f \<le> 64" and "perform_padding f file_size = Inr p"
  shows "read_loop f file_size 1 H = compress_all (chop p) H"
proof -
  from assms(2) have "take BLOCK_SIZE_BYTE f = f" "drop BLOCK_SIZE_BYTE f = []"
    by (simp_all add: BLOCK_SIZE_BYTE_def)
  then have "read_loop f file_size 1 H =
      (case compress_all (chop p) H of
         (Inl e, H') \<Rightarrow> (Inl e, H')
       | (Inr u, H') \<Rightarrow> (Inr (), H'))"
    using assms(1,3)
    by (subst read_loop.simps)
      (simp add: Let_def hash_slices_chop read_loop_Nil split: prod.splits sum.splits)
  then show ?thesis
    by (simp only: outcome_id)
qed

lemma read_loop_more:
  assumes "64 < length f" and "nb \<noteq> 1"
  shows "read_loop f file_size nb H =
           (case compute_hash (take 64 f) H of
              (Inl e, H') \<Rightarrow> (Inl e, H')
            | (Inr u, H') \<Rightarrow> read_loop (drop 64 f) file_size (nb - 1) H')"
proof -
  from assms(1) have l: "length (take 64 f) = 64" and ne: "take 64 f \<noteq> []"
    by auto
  show ?thesis
    using assms(2) ne hash_slices_block [OF l, of H]
    by (subst read_loop.simps) (simp add: Let_def BLOCK_SIZE_BYTE_def)
qed

lemma blocks_needed_one:
  assumes "0 < n" and "n \<le> 64"
  shows "(n + 63) div 64 = (1::nat)"
proof -
  have "0 < (n + 63) div 64"
    using assms(1) by (simp add: blocks_needed_less)
  moreover have "\<not> 1 < (n + 63) div 64"
    using assms(2) by (simp add: blocks_needed_less)
  ultimately show ?thesis
    by linarith
qed

lemma blocks_needed_drop:
  fixes n :: nat
  assumes "64 < n"
  shows "1 < (n + 63) div 64" and "(n - 64 + 63) div 64 = (n + 63) div 64 - 1"
proof -
  show "1 < (n + 63) div 64"
    using assms by (simp add: blocks_needed_less)
  from assms have "n + 63 = (n - 64 + 63) + 64"
    by simp
  then have "(n + 63) div 64 = (n - 64 + 63 + 64) div 64"
    by (simp only:)
  also have "\<dots> = (n - 64 + 63) div 64 + 1"
    by (simp only: div_add_self2)
  finally show "(n - 64 + 63) div 64 = (n + 63) div 64 - 1"
    by simp
qed

lemma read_loop_chop:
  assumes pad: "\<And>c. c \<noteq> [] \<Longrightarrow> length c \<le> 64 \<Longrightarrow> length c mod 64 = r \<Longrightarrow>
                  perform_padding c file_size = Inr (c @ tail)"
    and "f \<noteq> []" and "length f mod 64 = r"
  shows "read_loop f file_size (int ((length f + 63) div 64)) H = compress_all (chop (f @ tail)) H"
  using assms(2,3)
proof (induction "length f" arbitrary: f H rule: less_induct)
  case less
  show ?case
  proof (cases "length f \<le> 64")
    case True
    with less.prems have "(length f + 63) div 64 = 1"
      by (intro blocks_needed_one) simp_all
    then show ?thesis
      using read_loop_last [OF less.prems(1) True pad [OF less.prems(1) True less.prems(2)]]
      by simp
  next
    case False
    then have long: "64 < length f"
      by simp
    note b = blocks_needed_drop [OF long]
    have nb: "int ((length f + 63) div 64) \<noteq> 1"
      using b(1) by simp
    have "length f mod 64 = (length f - 64) mod 64"
      using long by (intro le_mod_geq) simp
    with less.prems(2) have r: "length (drop 64 f) mod 64 = r"
      by simp
    have "int ((length f + 63) div 64) - 1 = int ((length (drop 64 f) + 63) div 64)"
      using b by simp
    moreover have "read_loop (drop 64 f) file_size (int ((length (drop 64 f) + 63) div 64)) H'
        = compress_all (chop (drop 64 f @ tail)) H'" for H'
      using long r by (intro less.hyps) simp_all
    ultimately have rest: "read_loop (drop 64 f) file_size (int ((length f + 63) div 64) - 1) H'
        = compress_all (chop (drop 64 f @ tail)) H'" for H'
      by simp
    have "f @ tail = take 64 f @ (drop 64 f @ tail)"
      by simp
    moreover have "length (take 64 f) = 64"
      using long by simp
    ultimately have "chop (f @ tail) = take 64 f # chop (drop 64 f @ tail)"
      by (simp only: chop_append_block)
    then show ?thesis
      unfolding read_loop_more [OF long nb] by (simp add: rest split: prod.splits sum.splits)
  qed
qed

subsection \<open>The driver as a whole\<close>

lemma nb_chuncks_eq:
  "(if (int n * 8) mod (int BLOCK_SIZE_BYTE * 8) \<noteq> 0
    then drop_bit 9 (int n * 8) + 1 else drop_bit 9 (int n * 8))
   = int ((n + 63) div 64)"
proof -
  define q r where "q = int (n div 64)" and "r = int (n mod 64)"
  have "int n = int (64 * (n div 64) + n mod 64)"
    by (simp only: mult_div_mod_eq)
  then have "int n = 64 * q + r"
    by (simp only: q_def r_def of_nat_add of_nat_mult of_nat_numeral)
  then have n: "int n * 8 = 512 * q + 8 * r"
    by simp
  have r: "0 \<le> 8 * r" "8 * r < 512"
    by (simp_all add: r_def)
  have d: "(int n * 8) div 512 = q"
    using n r by (rule int_div_pos_eq)
  have m: "(int n * 8) mod 512 = 8 * r"
    using n r by (rule int_mod_pos_eq)
  have "int ((n + 63) div 64) = q + (if r = 0 then 0 else 1)"
    unfolding blocks_needed by (simp add: q_def r_def)
  then show ?thesis
    by (simp add: BLOCK_SIZE_BYTE_def drop_bit_eq_div d m)
qed

lemma driver_padding:
  assumes "int (length content) * 8 < 2 ^ 64" and "length c \<le> 64"
    and "length c mod 64 = length content mod 64"
  shows "perform_padding c (int (length content) * 8)
         = Inr (c @ [0x80] @ replicate (spec_zero_count (length c)) 0
                  @ spec_length_field (8 * length content))"
proof -
  let ?L = "int (length content) * 8"
  from assms(1,2) obtain lb where lb: "to_bytes ?L 8 = Inr lb"
    and p: "perform_padding c ?L =
             Inr (c @ [0x80] @ replicate (nat (drop_bit 3 ((440 - ?L) mod 512))) 0 @ lb)"
    using perform_padding_shape [of c ?L] by auto
  have "int (length c mod 64) = int (length content mod 64)"
    using assms(3) by simp
  then have "int (length c) mod 64 = int (length content) mod 64"
    by (simp only: zmod_int of_nat_numeral)
  then have "(8 * int (length c)) mod (8 * 64) = (8 * int (length content)) mod (8 * 64)"
    by (simp only: mult_mod_right [symmetric])
  then have "?L mod 512 = (8 * int (length c)) mod 512"
    by (simp add: mult.commute)
  then have "nat (drop_bit 3 ((440 - ?L) mod 512)) = spec_zero_count (length c)"
    by (rule padding_zero_count)
  moreover have "to_bytes (int (8 * length content)) 8 = Inr lb"
    using lb by (simp add: mult.commute)
  then have "spec_length_field (8 * length content) = lb"
    by (rule spec_length_field_to_bytes)
  ultimately show ?thesis
    using p by simp
qed

lemma spec_zero_count_mod:
  "n mod 64 = m mod 64 \<Longrightarrow> spec_zero_count n = spec_zero_count m"
  by (simp add: spec_zero_count_cases)

lemma compress_all_single: "compress_all [b] H = compute_hash b H"
  by (simp split: prod.splits sum.splits)

lemma main_core:
  assumes "int (length content) * 8 < 2 ^ 64"
  shows "main content H =
           (case compress_all (chop (spec_pad content)) H of
              (Inl e, H') \<Rightarrow> (Inl e, H')
            | (Inr u, H') \<Rightarrow> (Inr (concat (map format_x H')), H'))"
proof (cases "content = []")
  case True
  define block :: bytes
    where "block = [0x80] @ replicate (spec_zero_count 0) 0 @ spec_length_field 0"
  have "perform_padding [] 0 = Inr ([] @ block)"
    unfolding block_def using driver_padding [of "[]" "[]"] by simp
  then have p: "perform_padding [] 0 = Inr block"
    by simp
  have "length block = 64"
    by (simp add: block_def spec_zero_count_def spec_length_field_def)
  then have "chop (block @ []) = block # chop []"
    by (rule chop_append_block)
  then have c: "chop block = [block]"
    by (simp add: chop_Nil)
  have s: "spec_pad [] = block"
    by (simp add: spec_pad_def block_def)
  show ?thesis
    unfolding True s c compress_all_single by (simp add: main_def p)
next
  case False
  let ?L = "int (length content) * 8"
  define tail :: bytes
    where "tail = [0x80] @ replicate (spec_zero_count (length content)) 0
                 @ spec_length_field (8 * length content)"
  have pad: "perform_padding c ?L = Inr (c @ tail)"
    if "length c \<le> 64" "length c mod 64 = length content mod 64" for c
    unfolding tail_def using driver_padding [OF assms that]
    by (simp only: spec_zero_count_mod [OF that(2)])
  have rl: "read_loop content ?L (int ((length content + 63) div 64)) H
        = compress_all (chop (content @ tail)) H"
    using pad False by (intro read_loop_chop [where r = "length content mod 64"]) simp_all
  have sp: "spec_pad content = content @ tail"
    by (simp add: spec_pad_def tail_def)
  have "?L \<noteq> 0"
    using False by simp
  then have "main content H =
      (case read_loop content ?L
              (if ?L mod (int BLOCK_SIZE_BYTE * 8) \<noteq> 0
               then drop_bit 9 ?L + 1 else drop_bit 9 ?L) H of
         (Inl e, H') \<Rightarrow> (Inl e, H')
       | (Inr u, H') \<Rightarrow> (Inr (concat (map format_x H')), H'))"
    using assms by (simp add: main_def Let_def)
  then show ?thesis
    by (simp only: nb_chuncks_eq rl sp)
qed





text \<open>
  C7. For every byte sequence, \<^verbatim>\<open>main\<close> (reading 64-byte chunks, compressing every chunk but
  the last as it is and the last one after \<^verbatim>\<open>perform_padding\<close>) ends in the same outcome and
  leaves the same hash state in \<^verbatim>\<open>H\<close> as single-shot hashing, which pads the whole message at
  once, cuts it into 64-byte blocks and compresses them in order. Both refuse a message of
  \<open>2\<^sup>6\<^sup>4\<close> bits or more and leave \<^verbatim>\<open>H\<close> untouched then.
\<close>

theorem streaming_equals_oneshot:
  "map_sum id (\<lambda>_. ()) (fst (main msg H)) = fst (oneshot msg H) \<and>
   snd (main msg H) = snd (oneshot msg H)"
proof (cases "2 ^ 64 \<le> int (length msg) * 8")
  case True
  then show ?thesis
    by (simp add: main_too_big oneshot_def)
next
  case False
  then have "int (length msg) * 8 < 2 ^ 64"
    by simp
  then have "main msg H =
      (case compress_all (chop (spec_pad msg)) H of
         (Inl e, H') \<Rightarrow> (Inl e, H')
       | (Inr u, H') \<Rightarrow> (Inr (concat (map format_x H')), H'))"
    by (rule main_core)
  moreover have "oneshot msg H = compress_all (chop (spec_pad msg)) H"
    using False by (simp only: oneshot_def if_False)
  ultimately show ?thesis
    by (simp split: prod.splits sum.splits)
qed




section \<open>The compression function against the specification\<close>

subsection \<open>Integers with masks and 32-bit words\<close>

lemma rotr_uint:
  fixes w :: word32
  assumes "0 < n" and "n < 32"
  shows "rotr (uint w) n = uint (word_rotr n w)"
proof (rule bit_eqI)
  fix i :: nat
  have "rotr (uint w) n = drop_bit n (uint w) OR take_bit 32 (push_bit (32 - n) (uint w))"
    by (simp only: rotr_def take_bit_eq_mod)
  then have l: "bit (rotr (uint w) n) i \<longleftrightarrow>
        (n + i < 32 \<and> bit w (n + i)) \<or> (i < 32 \<and> 32 - n \<le> i \<and> bit w (i - (32 - n)))"
    by (auto simp add: bit_or_iff bit_drop_bit_eq bit_take_bit_iff bit_push_bit_iff bit_uint_iff)
  have r: "bit (uint (word_rotr n w)) i \<longleftrightarrow> i < 32 \<and> bit w ((i + n) mod 32)"
    by (simp add: bit_uint_iff bit_word_rotr_iff)
  show "bit (rotr (uint w) n) i \<longleftrightarrow> bit (uint (word_rotr n w)) i"
  proof (cases "i + n < 32")
    case True
    then have "(i + n) mod 32 = n + i" "\<not> 32 - n \<le> i" "i < 32"
      using assms by simp_all
    then show ?thesis
      unfolding l r using True by (simp add: add.commute)
  next
    case False
    show ?thesis
    proof (cases "i < 32")
      case True
      have "(i + n) mod 32 = (i + n - 32) mod 32"
        using False by (intro le_mod_geq) simp
      also have "\<dots> = i + n - 32"
        using True assms by (intro mod_less) simp
      also have "\<dots> = i - (32 - n)"
        using assms False by simp
      finally have "(i + n) mod 32 = i - (32 - n)" .
      moreover have "32 - n \<le> i" "\<not> n + i < 32"
        using False by simp_all
      ultimately show ?thesis
        unfolding l r using True by simp
    next
      case False
      then show ?thesis
        unfolding l r by simp
    qed
  qed
qed

lemma ch_uint:
  "ch (uint x) (uint y) (uint z) = uint (spec_ch x y z)" for x y z :: word32
  unfolding ch_def spec_ch_def
  by (rule bit_eqI) (auto simp add: bit_simps bit_uint_iff dest: bit_imp_le_length)

lemma maj_uint:
  "maj (uint x) (uint y) (uint z) = uint (spec_maj x y z)" for x y z :: word32
  by (simp add: maj_def spec_maj_def uint_xor uint_and)

lemma drop_bit_uint:
  "drop_bit n (uint x) = uint (drop_bit n x)" for x :: word32
proof -
  have "uint x < 2 ^ 32"
    using uint_lt2p [of x] by simp
  then have "take_bit 32 (uint x) = uint x"
    by (intro take_bit_int_eq_self) simp_all
  then show ?thesis
    by (simp add: unsigned_drop_bit_eq)
qed

lemma bsig0_uint: "bsig0 (uint x) = uint (spec_bsig0 x)"
  by (simp add: bsig0_def spec_bsig0_def uint_xor rotr_uint)

lemma bsig1_uint: "bsig1 (uint x) = uint (spec_bsig1 x)"
  by (simp add: bsig1_def spec_bsig1_def uint_xor rotr_uint)

lemma ssig0_uint: "ssig0 (uint x) = uint (spec_ssig0 x)"
  by (simp add: ssig0_def spec_ssig0_def uint_xor rotr_uint drop_bit_uint)

lemma ssig1_uint: "ssig1 (uint x) = uint (spec_ssig1 x)"
  by (simp add: ssig1_def spec_ssig1_def uint_xor rotr_uint drop_bit_uint)

lemma mod32_uint: "x mod 2 ^ 32 = uint (word_of_int x :: word32)"
  by (simp add: uint_word_of_int)

subsection \<open>Parsing the block\<close>

lemma add4_uint:
  "(uint a + uint b + uint c + uint d) mod 2 ^ 32 = uint (a + b + c + d)" for a b c d :: word32
  unfolding mod32_uint by simp

lemma take4_drop:
  assumes "4 * t + 3 < length block"
  shows "take 4 (drop (4 * t) block)
         = [block ! (4 * t), block ! (4 * t + 1), block ! (4 * t + 2), block ! (4 * t + 3)]"
proof -
  have d: "drop i block = block ! i # drop (i + 1) block" if "i < length block" for i
    using that by (simp add: Cons_nth_drop_Suc)
  have a: "4 * t + 1 + 1 = 4 * t + 2" "4 * t + 2 + 1 = 4 * t + 3"
    by simp_all
  have l: "4 * t < length block" "4 * t + 1 < length block" "4 * t + 2 < length block"
    using assms by simp_all
  have 0: "drop (4 * t) block = block ! (4 * t) # drop (4 * t + 1) block"
    using l(1) by (rule d)
  have 1: "drop (4 * t + 1) block = block ! (4 * t + 1) # drop (4 * t + 2) block"
    using d [OF l(2)] unfolding a .
  have 2: "drop (4 * t + 2) block = block ! (4 * t + 2) # drop (4 * t + 3) block"
    using d [OF l(3)] unfolding a .
  have 3: "drop (4 * t + 3) block = block ! (4 * t + 3) # drop (4 * t + 3 + 1) block"
    using assms by (rule d)
  show ?thesis
    by (simp only: 0 1 2 3) simp
qed

lemma from_bytes_rcat:
  "from_bytes [b0, b1, b2, b3] = uint (word_rcat [b0, b1, b2, b3] :: word32)"
proof -
  let ?v = "((uint b0 * 256 + uint b1) * 256 + uint b2) * 256 + uint b3"
  have b: "0 \<le> uint b0" "uint b0 < 256" "0 \<le> uint b1" "uint b1 < 256"
    "0 \<le> uint b2" "uint b2 < 256" "0 \<le> uint b3" "uint b3 < 256"
    using uint_lt2p [of b0] uint_lt2p [of b1] uint_lt2p [of b2] uint_lt2p [of b3] by simp_all
  then have r: "0 \<le> ?v" "?v < 2 ^ 32"
    by simp_all
  have "(word_rcat [b0, b1, b2, b3] :: word32) = word_of_int ?v"
    by (simp add: word_rcat_def algebra_simps)
  then have "uint (word_rcat [b0, b1, b2, b3] :: word32) = ?v mod 2 ^ 32"
    by (simp only: uint_word_of_int) simp
  also have "\<dots> = ?v"
    using r by (rule mod_pos_pos_trivial)
  finally show ?thesis
    by (simp add: from_bytes_def)
qed

lemma parse_words_spec:
  assumes "length block = 64"
  shows "parse_words block = map (\<lambda>t. uint (spec_W block t)) [0..<16]"
proof -
  have "from_bytes (take 4 (drop (t * 4) block)) = uint (spec_W block t)" if "t < 16" for t
  proof -
    from that assms have "4 * t + 3 < length block"
      by simp
    then have "take 4 (drop (t * 4) block)
         = [block ! (4 * t), block ! (4 * t + 1), block ! (4 * t + 2), block ! (4 * t + 3)]"
      using take4_drop [of t block] by (simp add: mult.commute)
    then show ?thesis
      using that by (simp only: from_bytes_rcat spec_W.simps [of block t] if_True)
  qed
  then show ?thesis
    using assms by (simp add: parse_words_def drop_bit_eq_div)
qed

subsection \<open>The message schedule\<close>

lemma extend_step_spec:
  assumes "16 \<le> t"
  shows "extend_step t (map (\<lambda>t. uint (spec_W block t)) [0..<t])
         = map (\<lambda>t. uint (spec_W block t)) [0..<Suc t]"
proof -
  let ?W = "\<lambda>t. uint (spec_W block t)"
  from assms have n: "map ?W [0..<t] ! (t - 2) = ?W (t - 2)" "map ?W [0..<t] ! (t - 7) = ?W (t - 7)"
    "map ?W [0..<t] ! (t - 15) = ?W (t - 15)" "map ?W [0..<t] ! (t - 16) = ?W (t - 16)"
    by simp_all
  have "(ssig1 (?W (t - 2)) + ?W (t - 7) + ssig0 (?W (t - 15)) + ?W (t - 16)) mod 2 ^ 32
        = uint (spec_ssig1 (spec_W block (t - 2)) + spec_W block (t - 7)
                + spec_ssig0 (spec_W block (t - 15)) + spec_W block (t - 16))"
    by (simp only: ssig1_uint ssig0_uint add4_uint)
  also have "\<dots> = ?W t"
    using assms by (subst (5) spec_W.simps) simp
  finally show ?thesis
    by (simp only: extend_step_def n) simp
qed

lemma extend_fold_spec:
  assumes "16 \<le> m"
  shows "fold extend_step [16..<m] (map (\<lambda>t. uint (spec_W block t)) [0..<16])
         = map (\<lambda>t. uint (spec_W block t)) [0..<m]"
  using assms
proof (induction m rule: dec_induct)
  case base
  show ?case by simp
next
  case (step n)
  from step.hyps(1) have "[16..<Suc n] = [16..<n] @ [n]"
    by simp
  then show ?case
    using extend_step_spec [OF step.hyps(1), of block]
    by (simp only: fold_append o_apply step.IH fold_simps)
qed

lemma extend_words_spec:
  assumes "length block = 64"
  shows "extend_words (parse_words block) = map (\<lambda>t. uint (spec_W block t)) [0..<64]"
  using extend_fold_spec [of 64 block]
  by (simp add: extend_words_def BLOCK_SIZE_BYTE_def parse_words_spec [OF assms])

subsection \<open>The rounds and the new state\<close>

lemma add2_uint: "(uint a + uint b) mod 2 ^ 32 = uint (a + b)" for a b :: word32
  unfolding mod32_uint by simp

lemma round_step_spec:
  assumes "t < 64"
  shows "round_step (map (\<lambda>t. uint (spec_W block t)) [0..<64]) t (working_of v)
         = working_of (spec_round block t v)"
proof -
  obtain a b c d e f g h where v: "v = (a, b, c, d, e, f, g, h)"
    by (cases v) auto
  let ?T1 = "h + spec_bsig1 e + spec_ch e f g + spec_K t + spec_W block t"
  let ?T2 = "spec_bsig0 a + spec_maj a b c"
  have w: "map (\<lambda>t. uint (spec_W block t)) [0..<64] ! t = uint (spec_W block t)"
    using assms by simp
  have t1: "(uint h + bsig1 (uint e) + ch (uint e) (uint f) (uint g) + K ! t
             + uint (spec_W block t)) mod 2 ^ 32 = uint ?T1"
    unfolding mod32_uint bsig1_uint ch_uint by (simp add: spec_K_def)
  have t2: "(bsig0 (uint a) + maj (uint a) (uint b) (uint c)) mod 2 ^ 32 = uint ?T2"
    unfolding bsig0_uint maj_uint by (rule add2_uint)
  have "round_step (map (\<lambda>t. uint (spec_W block t)) [0..<64]) t (working_of v)
      = ((uint ?T1 + uint ?T2) mod 2 ^ 32, uint a, uint b, uint c,
         (uint d + uint ?T1) mod 2 ^ 32, uint e, uint f, uint g)"
    unfolding v working_of_def round_step_def w by (simp only: prod.case Let_def t1 t2)
  also have "\<dots> = working_of (spec_round block t v)"
    unfolding v add2_uint by (simp add: working_of_def Let_def)
  finally show ?thesis .
qed

lemma rounds_fold_spec:
  assumes "n \<le> 64"
  shows "fold (round_step (map (\<lambda>t. uint (spec_W block t)) [0..<64])) [0..<n] (working_of v)
         = working_of (spec_rounds block n v)"
  using assms
proof (induction n)
  case 0
  show ?case by simp
next
  case (Suc n)
  then have "n < 64" "n \<le> 64"
    by simp_all
  then show ?case
    using Suc.IH round_step_spec [of n block "spec_rounds block n v"] by simp
qed

lemma rounds_spec:
  "rounds (map (\<lambda>t. uint (spec_W block t)) [0..<64]) (working_of v)
   = working_of (spec_rounds block 64 v)"
  unfolding rounds_def BLOCK_SIZE_BYTE_def by (rule rounds_fold_spec) simp

lemma compute_hash_spec_compress:
  assumes "length block = 64" and "length H = 8" and "\<forall>x \<in> set H. 0 \<le> x \<and> x < 2 ^ 32"
  shows "compute_hash block H = (Inr (), map uint (spec_compress block (map word_of_int H)))"
proof -
  from assms(2) obtain h0 h1 h2 h3 h4 h5 h6 h7 where H: "H = [h0, h1, h2, h3, h4, h5, h6, h7]"
    by (rule length_8E)
  define w :: "nat \<Rightarrow> word32" where "w i = word_of_int (H ! i)" for i
  have u: "uint (w i) = H ! i" if "i < 8" for i
  proof -
    from that assms(2,3) have "0 \<le> H ! i" "H ! i < 2 ^ 32"
      by simp_all
    then show ?thesis
      unfolding w_def uint_word_of_int by simp
  qed
  have hs: "map word_of_int H = [w 0, w 1, w 2, w 3, w 4, w 5, w 6, w 7]"
    by (simp add: H w_def)
  have Hu: "H = [uint (w 0), uint (w 1), uint (w 2), uint (w 3),
                 uint (w 4), uint (w 5), uint (w 6), uint (w 7)]"
    by (simp add: u) (simp add: H)
  obtain a b c d e f g h
    where r: "spec_rounds block 64 (w 0, w 1, w 2, w 3, w 4, w 5, w 6, w 7) = (a, b, c, d, e, f, g, h)"
    by (cases "spec_rounds block 64 (w 0, w 1, w 2, w 3, w 4, w 5, w 6, w 7)") auto
  have "(H ! 0, H ! 1, H ! 2, H ! 3, H ! 4, H ! 5, H ! 6, H ! 7)
        = working_of (w 0, w 1, w 2, w 3, w 4, w 5, w 6, w 7)"
    by (simp add: working_of_def u)
  then have "rounds (extend_words (parse_words block))
               (H ! 0, H ! 1, H ! 2, H ! 3, H ! 4, H ! 5, H ! 6, H ! 7)
             = (uint a, uint b, uint c, uint d, uint e, uint f, uint g, uint h)"
    by (simp only: extend_words_spec [OF assms(1)] rounds_spec r) (simp add: working_of_def)
  then have "compute_hash block H =
      (Inr (), add_back (uint a, uint b, uint c, uint d, uint e, uint f, uint g, uint h) H)"
    by (simp only: compute_hash_success [OF assms(1,2)])
  also have "add_back (uint a, uint b, uint c, uint d, uint e, uint f, uint g, uint h) H
      = map uint [a + w 0, b + w 1, c + w 2, d + w 3, e + w 4, f + w 5, g + w 6, h + w 7]"
    by (subst Hu) (simp only: add_back_explicit add2_uint list.map)
  also have "[a + w 0, b + w 1, c + w 2, d + w 3, e + w 4, f + w 5, g + w 6, h + w 7]
      = spec_compress block (map word_of_int H)"
  proof -
    have "spec_compress block [w 0, w 1, w 2, w 3, w 4, w 5, w 6, w 7]
        = (case spec_rounds block 64 (w 0, w 1, w 2, w 3, w 4, w 5, w 6, w 7) of
             (a, b, c, d, e, f, g, h) \<Rightarrow>
               map2 (+) [a, b, c, d, e, f, g, h] [w 0, w 1, w 2, w 3, w 4, w 5, w 6, w 7])"
      by (simp add: spec_compress_def)
    then have "spec_compress block [w 0, w 1, w 2, w 3, w 4, w 5, w 6, w 7]
        = map2 (+) [a, b, c, d, e, f, g, h] [w 0, w 1, w 2, w 3, w 4, w 5, w 6, w 7]"
      by (simp only: r prod.case)
    then show ?thesis
      by (simp add: hs)
  qed
  finally show ?thesis .
qed

text \<open>
  C2. For every block of 64 bytes and every \<^verbatim>\<open>H\<close> of eight words, each at least 0 and below
  \<open>2\<^sup>3\<^sup>2\<close>, \<^verbatim>\<open>compute_hash\<close> succeeds and leaves in \<^verbatim>\<open>H\<close> what the specification's
  compression engine computes on 32-bit words: the block parsed into 16 big-endian words,
  extended to 64 words by \<open>W[t] = ssig1(W[t-2]) + W[t-7] + ssig0(W[t-15]) + W[t-16]\<close>, 64 rounds
  with \<open>T1 = h + bsig1(e) + ch(e,f,g) + K[t] + W[t]\<close> and \<open>T2 = bsig0(a) + maj(a,b,c)\<close> and the
  rotation \<open>(T1 + T2, a, b, c, d + T1, e, f, g)\<close>, and the element-wise sum of the working
  variables with the old state, all sums modulo \<open>2\<^sup>3\<^sup>2\<close>.
\<close>

theorem compute_hash_refines_spec:
  assumes "length block = 64" and "length H = 8" and "\<forall>x \<in> set H. 0 \<le> x \<and> x < 2 ^ 32"
  shows "compute_hash block H = (Inr (), map uint (spec_compress block (map word_of_int H)))"
  using assms by (rule compute_hash_spec_compress)

theorem compute_hash_refines_spec_witness:
  "length (replicate 64 (0::byte)) = 64 \<and> length H_init = 8 \<and>
   compute_hash (replicate 64 0) H_init
     = (Inr (), map uint (spec_compress (replicate 64 0) (map word_of_int H_init)))"
proof -
  have h: "length (replicate 64 (0::byte)) = 64" "length H_init = 8"
    "\<forall>x \<in> set H_init. 0 \<le> x \<and> x < 2 ^ 32"
    by (simp_all add: H_init_def)
  note c = compute_hash_refines_spec [OF h]
  show ?thesis
    by (intro conjI h(1,2) c)
qed

section \<open>Test vectors\<close>

text \<open>
  The evaluations below run the definitions on concrete inputs inside the logic.
  The first two blocks are those of the empty message and of a block of zero bytes.
\<close>

lemma main_empty:
  "main [] H_init =
     (Inr ''e3b0c44298fc1c149afbf4c8996fb92427ae41e4649b934ca495991b7852b855'',
      [3820012610, 2566659092, 2600203464, 2574235940, 665731556, 1687917388,
       2761267483, 2018687061])"
  by code_simp

lemma compute_hash_zero_block:
  "compute_hash (replicate 64 0) H_init =
     (Inr (), [3663108286, 398046313, 1647531929, 2006957770, 2363872401, 3235013187,
               3137272298, 406301144])"
  by code_simp

lemma compute_hash_marker_block:
  "compute_hash (0x80 # replicate 63 0) H_init =
     (Inr (), [3820012610, 2566659092, 2600203464, 2574235940, 665731556, 1687917388,
               2761267483, 2018687061])"
  by code_simp

lemma compute_hash_zero_then_marker:
  "compute_hash (0x80 # replicate 63 0)
     [3663108286, 398046313, 1647531929, 2006957770, 2363872401, 3235013187,
      3137272298, 406301144] =
     (Inr (), [3247400326, 3434915821, 3485280488, 4018191865, 2495175693, 3061178946,
               564425635, 82044743])"
  by code_simp

lemma compute_hash_marker_then_zero:
  "compute_hash (replicate 64 0)
     [3820012610, 2566659092, 2600203464, 2574235940, 665731556, 1687917388,
      2761267483, 2018687061] =
     (Inr (), [2013471949, 728574728, 182599165, 1939323665, 1187172548, 3249269511,
               4184933866, 2561606750])"
  by code_simp

text \<open>
  C1. For the file holding the three bytes of \<open>abc\<close> (24 bits), \<^verbatim>\<open>main\<close>, started with
  \<^verbatim>\<open>H\<close> at its initial value, pads the chunk, compresses the one resulting block and
  returns the string \<open>ba7816bf 8f01cfea 414140de 5dae2223 b00361a3 96177a9c b410ff61
  f20015ad\<close> (written without the spaces).
\<close>

theorem digest_abc:
  "fst (main [0x61, 0x62, 0x63] H_init) =
     Inr ''ba7816bf8f01cfea414140de5dae2223b00361a396177a9cb410ff61f20015ad''"
  by code_simp

text \<open>
  C5, as stated: the digest of the empty file is the 63-character string ending in
  \<open>7852b85\<close>. It is not: the string \<^verbatim>\<open>main\<close> returns has one more character.
\<close>

theorem digest_empty_counterexample:
  "fst (main [] H_init) \<noteq>
     Inr ''e3b0c44298fc1c149afbf4c8996fb92427ae41e4649b934ca495991b7852b85''"
  by (simp add: main_empty)

text \<open>
  C5, amended: for the empty file (bit length 0), \<^verbatim>\<open>main\<close> pads the empty chunk into
  one block, compresses it from the initial hash values and returns the 64-character
  string ending in \<open>7852b855\<close>.
\<close>

theorem digest_empty:
  "fst (main [] H_init) =
     Inr ''e3b0c44298fc1c149afbf4c8996fb92427ae41e4649b934ca495991b7852b855''"
  by (simp add: main_empty)

text \<open>
  C4, at a failing input: for the file holding the single byte \<open>0x02\<close> the second hash
  word is \<open>0x00ffe48d\<close>, which \<^verbatim>\<open>f'{h:x}'\<close> renders as the six digits \<open>ffe48d\<close>; the
  string returned by \<^verbatim>\<open>main\<close> has 62 characters, not 64.
\<close>

theorem digest_short_word:
  "main [0x02] H_init =
     (Inr ''dbc1b4c9ffe48d575b5da5c638040125f65db0fe3e24494b76ea986457d986'',
      [0xdbc1b4c9, 0x00ffe48d, 0x575b5da5, 0xc6380401, 0x25f65db0, 0xfe3e2449,
       0x4b76ea98, 0x6457d986])
   \<and> length ''dbc1b4c9ffe48d575b5da5c638040125f65db0fe3e24494b76ea986457d986'' = 62"
  by code_simp

text \<open>
  C9. There are a starting state and two distinct 64-byte blocks for which the order of
  compression matters: from the initial hash values, compressing the all-zero block and
  then the block \<open>0x80, 0, \<dots>, 0\<close> leaves another state than compressing them the other
  way round. All four calls succeed.
\<close>

theorem compression_order_matters:
  "\<exists>H b1 b2 H1 H2 H12 H21.
     length b1 = 64 \<and> length b2 = 64 \<and> b1 \<noteq> b2 \<and>
     compute_hash b1 H = (Inr (), H1) \<and> compute_hash b2 H1 = (Inr (), H12) \<and>
     compute_hash b2 H = (Inr (), H2) \<and> compute_hash b1 H2 = (Inr (), H21) \<and>
     H12 \<noteq> H21"
proof -
  let ?b1 = "replicate 64 0 :: bytes" and ?b2 = "0x80 # replicate 63 0 :: bytes"
  have "length ?b1 = 64" "length ?b2 = 64"
    by simp_all
  moreover have "?b1 \<noteq> ?b2"
  proof
    assume "?b1 = ?b2"
    then have "?b1 ! 0 = ?b2 ! 0"
      by (rule arg_cong)
    then show False
      by simp
  qed
  moreover note compute_hash_zero_block compute_hash_zero_then_marker
    compute_hash_marker_block compute_hash_marker_then_zero
  moreover have
    "[3247400326, 3434915821, 3485280488, 4018191865, 2495175693, 3061178946,
      564425635, 82044743] \<noteq>
     [2013471949, 728574728, 182599165, 1939323665, 1187172548, 3249269511,
      4184933866, 2561606750 :: int]"
    by simp
  ultimately show ?thesis
    by blast
qed

section \<open>The global hash state\<close>

text \<open>The empty file hashed a second time in the same process, from the \<^verbatim>\<open>H\<close> the first run left.\<close>

lemma main_empty_again:
  "main [] [3820012610, 2566659092, 2600203464, 2574235940, 665731556, 1687917388,
       2761267483, 2018687061] =
     (Inr ''be27808a748f37fa2f2b7a7a7d9404e1139dedfedcc41c68b92b8f41f2e5d20e'',
      [3190259850, 1955543034, 791378554, 2106852577, 329117182, 3703839848,
       3106639681, 4075147790])"
  by code_simp

text \<open>
  C6, as stated: \<^verbatim>\<open>compute_hash\<close> is a pure function of the block and of a hash state it is
  given, returns the new state and changes nothing outside the call, so that independent
  hash computations can reuse it safely. In the program the call returns \<^verbatim>\<open>None\<close> and the
  state is the module-level list \<^verbatim>\<open>H\<close>, which the call on the all-zero block overwrites.
  Two hash computations in one process are therefore not independent: \<^verbatim>\<open>main\<close> on the empty
  file, called a second time, starts from what the first call left in \<^verbatim>\<open>H\<close> and returns
  another digest for the same file.
\<close>

theorem compute_hash_global_counterexample:
  "fst (compute_hash (replicate 64 0) H_init) = Inr () \<and>
   snd (compute_hash (replicate 64 0) H_init) \<noteq> H_init \<and>
   fst (main [] (snd (main [] H_init))) \<noteq> fst (main [] H_init)"
proof -
  have s: "snd (main [] H_init) = [3820012610, 2566659092, 2600203464, 2574235940, 665731556, 1687917388,
       2761267483, 2018687061]"
    by (simp only: main_empty snd_conv)
  have a: "fst (main [] (snd (main [] H_init)))
      = Inr ''be27808a748f37fa2f2b7a7a7d9404e1139dedfedcc41c68b92b8f41f2e5d20e''"
    by (simp only: s main_empty_again fst_conv)
  have b: "fst (main [] H_init)
      = Inr ''e3b0c44298fc1c149afbf4c8996fb92427ae41e4649b934ca495991b7852b855''"
    by (simp only: main_empty fst_conv)
  have c: "fst (main [] (snd (main [] H_init))) \<noteq> fst (main [] H_init)"
    unfolding a b by simp
  have d: "fst (compute_hash (replicate 64 0) H_init) = Inr ()"
    "snd (compute_hash (replicate 64 0) H_init) \<noteq> H_init"
    unfolding compute_hash_zero_block by (simp_all add: H_init_def)
  show ?thesis
    by (intro conjI d c)
qed

text \<open>
  C6, amended: \<^verbatim>\<open>compute_hash\<close> takes the block and returns \<^verbatim>\<open>None\<close>; the hash state is not
  given to it but is the module-level list \<^verbatim>\<open>H\<close>. For a block of 64 bytes and an \<^verbatim>\<open>H\<close> of
  eight words, each at least 0 and below \<open>2\<^sup>3\<^sup>2\<close>, the call replaces the content of \<^verbatim>\<open>H\<close> by
  the new state, which is the specification's compression of the block from the old content
  of \<^verbatim>\<open>H\<close>; for a block of 64 bytes and any \<^verbatim>\<open>H\<close> of eight entries, \<^verbatim>\<open>H\<close> afterwards has eight
  entries from 0 to \<open>2\<^sup>3\<^sup>2 - 1\<close>. When the block is not 64 bytes long, or \<^verbatim>\<open>H\<close> has not eight
  entries, the call raises and \<^verbatim>\<open>H\<close> is as it was. The state lives on between calls: hashing
  the empty file twice in one process returns the digest \<open>e3b0\<dots>b855\<close> first and \<open>be27\<dots>d20e\<close>
  the second time.
\<close>

theorem compute_hash_effect:
  "(length block = 64 \<and> length H = 8 \<and> (\<forall>x \<in> set H. 0 \<le> x \<and> x < 2 ^ 32) \<longrightarrow>
      compute_hash block H = (Inr (), map uint (spec_compress block (map word_of_int H)))) \<and>
   (length block = 64 \<and> length H = 8 \<longrightarrow>
      (\<exists>H'. compute_hash block H = (Inr (), H') \<and> length H' = 8 \<and>
            (\<forall>x \<in> set H'. 0 \<le> x \<and> x < 2 ^ 32))) \<and>
   (length block \<noteq> 64 \<longrightarrow> compute_hash block H = (Inl (BadBlockSize (length block)), H)) \<and>
   (length block = 64 \<and> length H \<noteq> 8 \<longrightarrow> compute_hash block H = (Inl ValueError, H)) \<and>
   main [] H_init =
     (Inr ''e3b0c44298fc1c149afbf4c8996fb92427ae41e4649b934ca495991b7852b855'',
      [3820012610, 2566659092, 2600203464, 2574235940, 665731556, 1687917388,
       2761267483, 2018687061]) \<and>
   main [] [3820012610, 2566659092, 2600203464, 2574235940, 665731556, 1687917388,
       2761267483, 2018687061] =
     (Inr ''be27808a748f37fa2f2b7a7a7d9404e1139dedfedcc41c68b92b8f41f2e5d20e'',
      [3190259850, 1955543034, 791378554, 2106852577, 329117182, 3703839848,
       3106639681, 4075147790])"
proof (intro conjI impI)
  assume "length block = 64 \<and> length H = 8 \<and> (\<forall>x \<in> set H. 0 \<le> x \<and> x < 2 ^ 32)"
  then show "compute_hash block H = (Inr (), map uint (spec_compress block (map word_of_int H)))"
    by (intro compute_hash_spec_compress) simp_all
next
  assume "length block = 64 \<and> length H = 8"
  then show "\<exists>H'. compute_hash block H = (Inr (), H') \<and> length H' = 8 \<and>
            (\<forall>x \<in> set H'. 0 \<le> x \<and> x < 2 ^ 32)"
    using compute_hash_ok by blast
next
  assume "length block \<noteq> 64"
  then show "compute_hash block H = (Inl (BadBlockSize (length block)), H)"
    by (simp add: compute_hash_def BLOCK_SIZE_BYTE_def)
next
  assume "length block = 64 \<and> length H \<noteq> 8"
  then show "compute_hash block H = (Inl ValueError, H)"
    by (simp add: compute_hash_def BLOCK_SIZE_BYTE_def Let_def)
next
  show "main [] H_init =
     (Inr ''e3b0c44298fc1c149afbf4c8996fb92427ae41e4649b934ca495991b7852b855'',
      [3820012610, 2566659092, 2600203464, 2574235940, 665731556, 1687917388,
       2761267483, 2018687061])"
    by (fact main_empty)
next
  show "main [] [3820012610, 2566659092, 2600203464, 2574235940, 665731556, 1687917388,
       2761267483, 2018687061] =
     (Inr ''be27808a748f37fa2f2b7a7a7d9404e1139dedfedcc41c68b92b8f41f2e5d20e'',
      [3190259850, 1955543034, 791378554, 2106852577, 329117182, 3703839848,
       3106639681, 4075147790])"
    by (fact main_empty_again)
qed

theorem compute_hash_effect_witness:
  "length (replicate 64 (0::byte)) = 64 \<and> length H_init = 8 \<and>
   compute_hash (replicate 64 0) H_init
     = (Inr (), map uint (spec_compress (replicate 64 0) (map word_of_int H_init))) \<and>
   length ([] :: bytes) \<noteq> 64 \<and>
   compute_hash [] H_init = (Inl (BadBlockSize (length ([] :: bytes))), H_init) \<and>
   length ([] :: int list) \<noteq> 8 \<and>
   compute_hash (replicate 64 0) [] = (Inl ValueError, [])"
proof -
  have h: "length (replicate 64 (0::byte)) = 64" "length H_init = 8"
    "length ([] :: bytes) \<noteq> 64" "length ([] :: int list) \<noteq> 8"
    by (simp_all add: H_init_def)
  have r: "\<forall>x \<in> set H_init. 0 \<le> x \<and> x < 2 ^ 32"
    by (simp add: H_init_def)
  have 1: "compute_hash (replicate 64 0) H_init
     = (Inr (), map uint (spec_compress (replicate 64 0) (map word_of_int H_init)))"
    using compute_hash_effect [of "replicate 64 0" H_init, THEN conjunct1] h(1,2) r
    by (elim impE) (intro conjI, assumption+)
  have 2: "compute_hash [] H_init = (Inl (BadBlockSize (length ([] :: bytes))), H_init)"
    using compute_hash_effect [of "[]" H_init, THEN conjunct2, THEN conjunct2, THEN conjunct1]
      h(3)
    by (elim impE) assumption+
  have 3: "compute_hash (replicate 64 0) [] = (Inl ValueError, [])"
    using compute_hash_effect [of "replicate 64 0" "[]", THEN conjunct2, THEN conjunct2,
        THEN conjunct2, THEN conjunct1] h(1,4)
    by (elim impE) (intro conjI, assumption+)
  show ?thesis
    by (intro conjI h 1 2 3)
qed

end
